theory Spec2Isabelle
  imports Main
begin

section \<open>The run context (statemachine.js, class Context)\<close>

text \<open>
  A token is the object \<^verbatim>\<open>{type, value}\<close> that the tokenizer's \<^verbatim>\<open>emit\<close> action
  builds from the buffer. Input items are the characters of the input string; the JavaScript
  value \<^verbatim>\<open>undefined\<close> is \<open>None\<close> throughout.
\<close>

record token =
  tok_type :: string
  tok_value :: string

text \<open>
  The fields of \<^verbatim>\<open>Context\<close> as the constructor sets them, followed by the fields that
  the tokenizer adds to the same object: \<open>finished\<close> (set by the run loop, absent and
  therefore falsy before), \<open>buffer\<close> (set by the context initializer), \<open>charstack\<close> and
  \<open>callstack\<close> (created by the first \<^verbatim>\<open>push()\<close> and \<^verbatim>\<open>call()\<close>; \<open>None\<close> while absent).
  A stack is a JavaScript array that grows and shrinks at its end, so the top of the stack is
  the last element of the list. Stack entries can be \<^verbatim>\<open>undefined\<close>, because \<^verbatim>\<open>push()\<close>
  stores whatever \<^verbatim>\<open>currentItem\<close> holds and \<^verbatim>\<open>call()\<close> whatever \<^verbatim>\<open>state\<close> holds.
\<close>

record Context =
  state :: "string option"
  currentItem :: "char option"
  currentPosition :: int
  tokens :: "token list"
  finished :: bool
  buffer :: string
  charstack :: "char option list option"
  callstack :: "string option list option"

definition new_Context :: "string option \<Rightarrow> Context" where
  "new_Context initialState =
     \<lparr> state = initialState, currentItem = None, currentPosition = - 1, tokens = [],
       finished = False, buffer = [], charstack = None, callstack = None \<rparr>"

definition changeState :: "string option \<Rightarrow> Context \<Rightarrow> Context" where
  "changeState s ctx = ctx\<lparr>state := s\<rparr>"

definition ctx_emit :: "token \<Rightarrow> Context \<Rightarrow> Context" where
  "ctx_emit t ctx = ctx\<lparr>tokens := tokens ctx @ [t]\<rparr>"

section \<open>Rendering values inside template strings\<close>

fun show_nat :: "nat \<Rightarrow> string" where
  "show_nat n =
     (if n < 10 then [char_of (48 + n)]
      else show_nat (n div 10) @ [char_of (48 + n mod 10)])"

declare show_nat.simps [simp del]

definition show_int :: "int \<Rightarrow> string" where
  "show_int i = (if i < 0 then CHR ''-'' # show_nat (nat (- i)) else show_nat (nat i))"

text \<open>String conversion of an item and of a state name: \<^verbatim>\<open>undefined\<close> prints as such.\<close>

definition item_str :: "char option \<Rightarrow> string" where
  "item_str i = (case i of None \<Rightarrow> ''undefined'' | Some c \<Rightarrow> [c])"

definition name_str :: "string option \<Rightarrow> string" where
  "name_str n = (case n of None \<Rightarrow> ''undefined'' | Some s \<Rightarrow> s)"

section \<open>The action vocabulary (tokenizer.js)\<close>

text \<open>
  What an action can throw: \<^verbatim>\<open>new Error(message)\<close>, or the \<^verbatim>\<open>TypeError\<close> that the
  runtime raises when a property of \<^verbatim>\<open>undefined\<close> is read (the argument names the
  property).
\<close>

datatype exn = ErrorExn string | TypeErrorExn string

datatype action =
    Accept
  | Emit string
  | State string
  | Error string
  | Push
  | Call string
  | Ret

definition accept :: "Context \<Rightarrow> Context" where
  "accept ctx = ctx\<lparr>buffer := buffer ctx @ item_str (currentItem ctx)\<rparr>"

definition emit :: "string \<Rightarrow> Context \<Rightarrow> Context" where
  "emit ty ctx = (ctx_emit \<lparr>tok_type = ty, tok_value = buffer ctx\<rparr> ctx)\<lparr>buffer := []\<rparr>"

definition apostrophe :: char where
  "apostrophe = CHR 0x27"

text \<open>The template string of \<^verbatim>\<open>error(msg)\<close>, and its value on a context.\<close>

definition error_text :: "string \<Rightarrow> int \<Rightarrow> char option \<Rightarrow> string" where
  "error_text msg pos item =
     msg @ '' at position '' @ show_int pos @ '' ('' @ [apostrophe] @ item_str item
       @ [apostrophe] @ '')''"

definition error_message :: "string \<Rightarrow> Context \<Rightarrow> string" where
  "error_message msg ctx = error_text msg (currentPosition ctx) (currentItem ctx)"

definition push :: "Context \<Rightarrow> Context" where
  "push ctx =
     ctx\<lparr>charstack :=
           Some ((case charstack ctx of None \<Rightarrow> [] | Some st \<Rightarrow> st) @ [currentItem ctx])\<rparr>"

definition ret_message :: "Context \<Rightarrow> string" where
  "ret_message ctx =
     ''Can'' @ [apostrophe] @ ''t return from state '' @ [apostrophe] @ name_str (state ctx)
       @ [apostrophe] @ ''; callstack empty''"

definition call :: "string \<Rightarrow> Context \<Rightarrow> Context" where
  "call s ctx =
     changeState (Some s)
       (ctx\<lparr>callstack :=
              Some ((case callstack ctx of None \<Rightarrow> [] | Some cs \<Rightarrow> cs) @ [state ctx])\<rparr>)"

definition ret :: "Context \<Rightarrow> exn + Context" where
  "ret ctx =
     (case callstack ctx of
        None \<Rightarrow> Inl (ErrorExn (ret_message ctx))
      | Some cs \<Rightarrow>
          if length cs < 1 then Inl (ErrorExn (ret_message ctx))
          else Inr (changeState (last cs) (ctx\<lparr>callstack := Some (butlast cs)\<rparr>)))"

text \<open>One action applied to the context: the thrown value, or the mutated context.\<close>

fun do_action :: "action \<Rightarrow> Context \<Rightarrow> exn + Context" where
  "do_action Accept ctx = Inr (accept ctx)"
| "do_action (Emit ty) ctx = Inr (emit ty ctx)"
| "do_action (State s) ctx = Inr (changeState (Some s) ctx)"
| "do_action (Error msg) ctx = Inl (ErrorExn (error_message msg ctx))"
| "do_action Push ctx = Inr (push ctx)"
| "do_action (Call s) ctx = Inr (call s ctx)"
| "do_action Ret ctx = ret ctx"

text \<open>
  \<^verbatim>\<open>for(let action of actions) action(context)\<close>: the actions run in order and the loop
  stops at the first one that throws. The context is one mutable object, so what the earlier
  actions wrote is still there after a throw; the result pairs the thrown value, if any, with
  the context as the loop left it.
\<close>

fun run_actions :: "action list \<Rightarrow> Context \<Rightarrow> exn option \<times> Context" where
  "run_actions [] ctx = (None, ctx)"
| "run_actions (a # as) ctx =
     (case do_action a ctx of
        Inl e \<Rightarrow> (Some e, ctx)
      | Inr ctx' \<Rightarrow> run_actions as ctx')"

section \<open>Matchers (the tokenizer's matcher wrapper, and \<^verbatim>\<open>pop\<close>)\<close>

text \<open>
  The first argument of \<^verbatim>\<open>.on()\<close> after the tokenizer's wrapper has resolved it:
  a literal string compared to the current item with \<^verbatim>\<open>===\<close>, a regular expression
  matched against the current item (a one-character string, so the pattern is a predicate on
  that character), the \<^verbatim>\<open>pop()\<close> matcher, or a matcher function of the caller, taken
  here as a predicate that reads the context.
\<close>

datatype matcher =
    Lit string
  | Pattern "char \<Rightarrow> bool"
  | Pop
  | Fn "Context \<Rightarrow> bool"

text \<open>
  \<^verbatim>\<open>pop()\<close>: false while \<^verbatim>\<open>ctx.charstack\<close> is absent; otherwise the current item is
  compared with \<^verbatim>\<open>charstack[charstack.length-1]\<close>, which is \<^verbatim>\<open>undefined\<close> for an empty
  array, and on equality \<^verbatim>\<open>charstack.pop()\<close> drops the last entry (nothing, on an empty
  array).
\<close>

definition stack_top :: "'a option list \<Rightarrow> 'a option" where
  "stack_top st = (if st = [] then None else last st)"

definition pop :: "Context \<Rightarrow> bool \<times> Context" where
  "pop ctx =
     (case charstack ctx of
        None \<Rightarrow> (False, ctx)
      | Some st \<Rightarrow>
          if currentItem ctx = stack_top st then (True, ctx\<lparr>charstack := Some (butlast st)\<rparr>)
          else (False, ctx))"

text \<open>
  Evaluating a matcher gives its verdict and the context it leaves. The pattern matcher
  calls \<^verbatim>\<open>ctx.currentItem.match\<close>, which is a \<^verbatim>\<open>TypeError\<close> when there is no
  current item.
\<close>

fun eval_matcher :: "matcher \<Rightarrow> Context \<Rightarrow> exn + bool \<times> Context" where
  "eval_matcher (Lit m) ctx =
     Inr ((case currentItem ctx of None \<Rightarrow> False | Some c \<Rightarrow> [c] = m), ctx)"
| "eval_matcher (Pattern p) ctx =
     (case currentItem ctx of
        None \<Rightarrow> Inl (TypeErrorExn ''match'')
      | Some c \<Rightarrow> Inr (p c, ctx))"
| "eval_matcher Pop ctx = Inr (pop ctx)"
| "eval_matcher (Fn f) ctx = Inr (f ctx, ctx)"

section \<open>The state table and the built machine (statemachine.js)\<close>

record rule =
  matcher :: matcher
  actions :: "action list"

record state_obj =
  name :: string
  matchers :: "rule list"
  defaultActions :: "action list"
  endActions :: "action list"

text \<open>
  \<^verbatim>\<open>StateMachine\<close>: the default state and the table of states by name, as one run observes
  them. The context initializer is the tokenizer's, which sets the buffer to the empty string.
\<close>

record StateMachine =
  defaultState :: "string option"
  states :: "string \<Rightarrow> state_obj option"

text \<open>
  \<^verbatim>\<open>state.matchers.find(m => m.matcher(context))\<close>: the matchers are called in list order
  on the one context object, and the scan stops at the first that returns true.
\<close>

fun find_matcher :: "rule list \<Rightarrow> Context \<Rightarrow> exn + rule option \<times> Context" where
  "find_matcher [] ctx = Inr (None, ctx)"
| "find_matcher (r # rs) ctx =
     (case eval_matcher (matcher r) ctx of
        Inl e \<Rightarrow> Inl e
      | Inr (b, ctx') \<Rightarrow> if b then Inr (Some r, ctx') else find_matcher rs ctx')"

section \<open>Input streams (util.js, streamify)\<close>

record stream =
  iterable :: string
  inputPosition :: nat

definition streamify :: "string \<Rightarrow> stream" where
  "streamify s = \<lparr> iterable = s, inputPosition = 0 \<rparr>"

definition stream_next :: "stream \<Rightarrow> char option \<times> stream" where
  "stream_next s =
     (if inputPosition s \<ge> length (iterable s) then (None, s)
      else (Some (iterable s ! inputPosition s), s\<lparr>inputPosition := inputPosition s + 1\<rparr>))"

section \<open>The run loop (StateMachine.process)\<close>

text \<open>
  What one call of the output stream's \<^verbatim>\<open>next()\<close> gives its caller: a token,
  \<^verbatim>\<open>undefined\<close> (the end-of-sequence signal), or a thrown value.
\<close>

datatype result = Tok token | Undefined | Throws exn

text \<open>The state of one run: the context object and the input stream that \<^verbatim>\<open>next\<close> closes over.\<close>

record run =
  ctx :: Context
  inputStream :: stream

text \<open>
  \<^verbatim>\<open>process(input)\<close> for an input string: a new context in the default state, the
  tokenizer's context initializer (\<^verbatim>\<open>ctx.buffer = ""\<close>), and a stream over the string.
\<close>

definition process :: "StateMachine \<Rightarrow> string \<Rightarrow> run" where
  "process m input =
     \<lparr> ctx = (new_Context (defaultState m))\<lparr>buffer := []\<rparr>, inputStream = streamify input \<rparr>"

text \<open>\<^verbatim>\<open>return context.tokens.shift()\<close>\<close>

definition shift_tokens :: "run \<Rightarrow> result \<times> run" where
  "shift_tokens r =
     (case tokens (ctx r) of
        [] \<Rightarrow> (Undefined, r)
      | t # ts \<Rightarrow> (Tok t, r\<lparr>ctx := (ctx r)\<lparr>tokens := ts\<rparr>\<rparr>))"

text \<open>
  Lines 79 to 86 of the loop body: the actions of the first rule whose matcher returns true,
  or the default actions of the state when \<^verbatim>\<open>find\<close> returns \<^verbatim>\<open>undefined\<close>.
\<close>

definition choose_actions :: "state_obj \<Rightarrow> Context \<Rightarrow> exn + action list \<times> Context" where
  "choose_actions sto c =
     (case find_matcher (matchers sto) c of
        Inl e \<Rightarrow> Inl e
      | Inr (found, c') \<Rightarrow>
          Inr ((case found of Some rl \<Rightarrow> actions rl | None \<Rightarrow> defaultActions sto), c'))"

text \<open>
  One pass through the body of the \<^verbatim>\<open>do ... while\<close> loop. \<open>None\<close> as the first component
  means that the loop condition holds (no token is queued) and the body runs again;
  \<open>Some res\<close> means that \<^verbatim>\<open>next()\<close> ends with \<open>res\<close>. The table lookup
  \<^verbatim>\<open>this.states[context.state]\<close> converts the key to a string, and reading a property of
  a missing state is a \<^verbatim>\<open>TypeError\<close>. A matcher that throws has not written to the
  context before.
\<close>

definition iteration :: "StateMachine \<Rightarrow> run \<Rightarrow> result option \<times> run" where
  "iteration m r =
     (let (item, s') = stream_next (inputStream r);
          c1 = (ctx r)\<lparr>currentItem := item, currentPosition := currentPosition (ctx r) + 1\<rparr>;
          st = states m (name_str (state c1))
      in if item = None then
           (case st of
              None \<Rightarrow> (Some (Throws (TypeErrorExn ''endActions'')), \<lparr>ctx = c1, inputStream = s'\<rparr>)
            | Some sto \<Rightarrow>
                (case run_actions (endActions sto) c1 of
                   (Some e, c2) \<Rightarrow> (Some (Throws e), \<lparr>ctx = c2, inputStream = s'\<rparr>)
                 | (None, c2) \<Rightarrow>
                     (case shift_tokens \<lparr>ctx = c2\<lparr>finished := True\<rparr>, inputStream = s'\<rparr> of
                        (res, r') \<Rightarrow> (Some res, r'))))
         else
           (case st of
              None \<Rightarrow> (Some (Throws (TypeErrorExn ''matchers'')), \<lparr>ctx = c1, inputStream = s'\<rparr>)
            | Some sto \<Rightarrow>
                (case choose_actions sto c1 of
                   Inl e \<Rightarrow> (Some (Throws e), \<lparr>ctx = c1, inputStream = s'\<rparr>)
                 | Inr (acts, c2) \<Rightarrow>
                     (case run_actions acts c2 of
                        (Some e, c3) \<Rightarrow> (Some (Throws e), \<lparr>ctx = c3, inputStream = s'\<rparr>)
                      | (None, c3) \<Rightarrow>
                          if tokens c3 = [] then (None, \<lparr>ctx = c3, inputStream = s'\<rparr>)
                          else (case shift_tokens \<lparr>ctx = c3, inputStream = s'\<rparr> of
                                  (res, r') \<Rightarrow> (Some res, r'))))))"

text \<open>
  The \<^verbatim>\<open>do ... while(context.tokens.length == 0)\<close> loop. Every pass that asks for
  another one has consumed an input item, so the loop ends on every input string.
\<close>

function loop :: "StateMachine \<Rightarrow> run \<Rightarrow> result \<times> run" where
  "loop m r =
     (case fst (iteration m r) of
        None \<Rightarrow> loop m (snd (iteration m r))
      | Some res \<Rightarrow> (res, snd (iteration m r)))"
  by pat_completeness auto
termination
  apply (relation "measure (\<lambda>(m, r). length (iterable (inputStream r)) - inputPosition (inputStream r))")
   apply simp
  apply (auto simp: iteration_def stream_next_def shift_tokens_def Let_def
              split: if_splits option.splits sum.splits prod.splits list.splits)
  done

declare loop.simps [simp del]

text \<open>One call of \<^verbatim>\<open>next()\<close> on the output stream of a run.\<close>

definition "next" :: "StateMachine \<Rightarrow> run \<Rightarrow> result \<times> run" where
  "next m r =
     (if finished (ctx r) then (Undefined, r)
      else if length (tokens (ctx r)) > 0 then shift_tokens r
      else loop m r)"

text \<open>
  The number of calls of \<^verbatim>\<open>inputStream.next()\<close> that one call of \<^verbatim>\<open>next()\<close> makes:
  none on the two early returns, and one for every pass through the loop body.
\<close>

function loop_pulls :: "StateMachine \<Rightarrow> run \<Rightarrow> nat" where
  "loop_pulls m r =
     Suc (case fst (iteration m r) of
            None \<Rightarrow> loop_pulls m (snd (iteration m r))
          | Some res \<Rightarrow> 0)"
  by pat_completeness auto
termination
  apply (relation "measure (\<lambda>(m, r). length (iterable (inputStream r)) - inputPosition (inputStream r))")
   apply simp
  apply (auto simp: iteration_def stream_next_def shift_tokens_def Let_def
              split: if_splits option.splits sum.splits prod.splits list.splits)
  done

declare loop_pulls.simps [simp del]

definition input_pulls :: "StateMachine \<Rightarrow> run \<Rightarrow> nat" where
  "input_pulls m r =
     (if finished (ctx r) then 0
      else if length (tokens (ctx r)) > 0 then 0
      else loop_pulls m r)"

text \<open>The results of the first \<open>n\<close> calls of \<^verbatim>\<open>next()\<close>, and the run after them.\<close>

fun pulls :: "StateMachine \<Rightarrow> nat \<Rightarrow> run \<Rightarrow> result list \<times> run" where
  "pulls m 0 r = ([], r)"
| "pulls m (Suc n) r =
     (case next m r of (res, r') \<Rightarrow> (case pulls m n r' of (rs, r'') \<Rightarrow> (res # rs, r'')))"

section \<open>The builder (StateMachineBuilder), with the objects it shares\<close>

text \<open>
  The builder keeps its states in one object, \<^verbatim>\<open>this.states\<close>, whose properties refer to
  state objects; \<^verbatim>\<open>build()\<close> hands the same object to the machine. Both kinds of object
  therefore live in a store, and the builder and the machine hold addresses. A table maps a
  property name to the address of a state object. The table holds the properties that
  \<^verbatim>\<open>state()\<close> has created; a name that the table inherits from \<^verbatim>\<open>Object.prototype\<close>
  (such as \<^verbatim>\<open>constructor\<close>) is found by \<^verbatim>\<open>this.states[name]\<close> without being a state,
  and the builder calls below are the code's for every other name.
\<close>

type_synonym addr = nat

record heap =
  tables :: "addr \<Rightarrow> string \<Rightarrow> addr option"
  objs :: "addr \<Rightarrow> state_obj"
  next_addr :: addr

definition new_state :: "string \<Rightarrow> state_obj" where
  "new_state nm = \<lparr> name = nm, matchers = [], defaultActions = [], endActions = [] \<rparr>"

text \<open>Nothing is allocated in the empty store; an address is read only after it was written.\<close>

definition empty_heap :: heap where
  "empty_heap = \<lparr> tables = (\<lambda>a k. None), objs = (\<lambda>a. new_state []), next_addr = 0 \<rparr>"

record StateMachineBuilder =
  b_states :: addr
  currentState :: "addr option"
  b_defaultState :: "string option"

text \<open>The matcher wrapper and the context initializer are the ones \<^verbatim>\<open>Tokenizer()\<close> installs.\<close>

definition new_StateMachineBuilder :: "heap \<Rightarrow> heap \<times> StateMachineBuilder" where
  "new_StateMachineBuilder h =
     (h\<lparr>tables := (tables h)(next_addr h := (\<lambda>k. None)), next_addr := next_addr h + 1\<rparr>,
      \<lparr> b_states = next_addr h, currentState = None, b_defaultState = None \<rparr>)"

text \<open>\<^verbatim>\<open>!this.defaultState\<close>: true for \<^verbatim>\<open>undefined\<close> and for the empty string.\<close>

definition falsy :: "string option \<Rightarrow> bool" where
  "falsy v = (case v of None \<Rightarrow> True | Some s \<Rightarrow> s = [])"

definition builder_state :: "string \<Rightarrow> heap \<times> StateMachineBuilder \<Rightarrow> heap \<times> StateMachineBuilder" where
  "builder_state nm hb =
     (case hb of (h, b) \<Rightarrow>
        (case tables h (b_states b) nm of
           Some a \<Rightarrow>
             (h, b\<lparr>currentState := Some a,
                   b_defaultState := (if falsy (b_defaultState b) then Some nm else b_defaultState b)\<rparr>)
         | None \<Rightarrow>
             (h\<lparr>objs := (objs h)(next_addr h := new_state nm),
                tables := (tables h)(b_states b := (tables h (b_states b))(nm \<mapsto> next_addr h)),
                next_addr := next_addr h + 1\<rparr>,
              b\<lparr>currentState := Some (next_addr h),
                b_defaultState := (if falsy (b_defaultState b) then Some nm else b_defaultState b)\<rparr>)))"

text \<open>
  \<^verbatim>\<open>on\<close>, \<^verbatim>\<open>onEnd\<close> and \<^verbatim>\<open>else\<close> write to the state object that \<^verbatim>\<open>currentState\<close>
  refers to; before the first \<^verbatim>\<open>state()\<close> call that is \<^verbatim>\<open>undefined\<close> and the write is a
  \<^verbatim>\<open>TypeError\<close>.
\<close>

definition update_current ::
  "string \<Rightarrow> (state_obj \<Rightarrow> state_obj) \<Rightarrow> heap \<times> StateMachineBuilder \<Rightarrow> exn + heap \<times> StateMachineBuilder"
  where
  "update_current prop f hb =
     (case hb of (h, b) \<Rightarrow>
        (case currentState b of
           None \<Rightarrow> Inl (TypeErrorExn prop)
         | Some a \<Rightarrow> Inr (h\<lparr>objs := (objs h)(a := f (objs h a))\<rparr>, b)))"

definition builder_on ::
  "matcher \<Rightarrow> action list \<Rightarrow> heap \<times> StateMachineBuilder \<Rightarrow> exn + heap \<times> StateMachineBuilder" where
  "builder_on mt acts =
     update_current ''matchers'' (\<lambda>so. so\<lparr>matchers := matchers so @ [\<lparr>matcher = mt, actions = acts\<rparr>]\<rparr>)"

definition builder_onEnd ::
  "action list \<Rightarrow> heap \<times> StateMachineBuilder \<Rightarrow> exn + heap \<times> StateMachineBuilder" where
  "builder_onEnd acts = update_current ''endActions'' (\<lambda>so. so\<lparr>endActions := acts\<rparr>)"

definition builder_else ::
  "action list \<Rightarrow> heap \<times> StateMachineBuilder \<Rightarrow> exn + heap \<times> StateMachineBuilder" where
  "builder_else acts = update_current ''defaultActions'' (\<lambda>so. so\<lparr>defaultActions := acts\<rparr>)"

text \<open>
  The machine that \<^verbatim>\<open>build()\<close> returns holds the default state by value and the address of
  the builder's own table.
\<close>

record machine_ref =
  m_defaultState :: "string option"
  m_states :: addr

definition build :: "StateMachineBuilder \<Rightarrow> machine_ref" where
  "build b = \<lparr> m_defaultState = b_defaultState b, m_states = b_states b \<rparr>"

text \<open>
  What a machine reads through its references in a given store: the state objects by name.
  No action and no matcher writes to the store, so a call of \<^verbatim>\<open>next()\<close> in store \<open>h\<close>
  is a call on this machine.
\<close>

definition machine_in :: "heap \<Rightarrow> machine_ref \<Rightarrow> StateMachine" where
  "machine_in h mr =
     \<lparr> defaultState = m_defaultState mr,
       states = (\<lambda>k. case tables h (m_states mr) k of None \<Rightarrow> None | Some a \<Rightarrow> Some (objs h a)) \<rparr>"

text \<open>A chain of builder calls, as a list, applied in order; a throw ends the chain.\<close>

datatype builder_call =
    DeclState string
  | On matcher "action list"
  | OnEnd "action list"
  | Else "action list"

fun apply_call :: "builder_call \<Rightarrow> heap \<times> StateMachineBuilder \<Rightarrow> exn + heap \<times> StateMachineBuilder" where
  "apply_call (DeclState nm) hb = Inr (builder_state nm hb)"
| "apply_call (On mt acts) hb = builder_on mt acts hb"
| "apply_call (OnEnd acts) hb = builder_onEnd acts hb"
| "apply_call (Else acts) hb = builder_else acts hb"

fun apply_calls :: "builder_call list \<Rightarrow> heap \<times> StateMachineBuilder \<Rightarrow> exn + heap \<times> StateMachineBuilder" where
  "apply_calls [] hb = Inr hb"
| "apply_calls (c # cs) hb =
     (case apply_call c hb of Inl e \<Rightarrow> Inl e | Inr hb' \<Rightarrow> apply_calls cs hb')"

text \<open>
  \<^verbatim>\<open>Tokenizer().state(...). ... .build()\<close> in a fresh store: the machine as a run started
  right after \<^verbatim>\<open>build()\<close> observes it.
\<close>

definition Tokenizer :: "builder_call list \<Rightarrow> exn + StateMachine" where
  "Tokenizer calls =
     (case apply_calls calls (new_StateMachineBuilder empty_heap) of
        Inl e \<Rightarrow> Inl e
      | Inr (h, b) \<Rightarrow> Inr (machine_in h (build b)))"

section \<open>Declaration order and execution order, as the specification words them\<close>

text \<open>
  The property names that the table \<^verbatim>\<open>this.states\<close> inherits from
  \<^verbatim>\<open>Object.prototype\<close>. The builder model above covers the state names outside this
  list; statements about every chain of builder calls say so.
\<close>

definition inherited_names :: "string list" where
  "inherited_names =
     [''constructor'', ''__defineGetter__'', ''__defineSetter__'', ''hasOwnProperty'',
      ''__lookupGetter__'', ''__lookupSetter__'', ''isPrototypeOf'', ''propertyIsEnumerable'',
      ''toString'', ''valueOf'', ''__proto__'', ''toLocaleString'']"

fun declared_names :: "builder_call list \<Rightarrow> string list" where
  "declared_names [] = []"
| "declared_names (DeclState n # cs) = n # declared_names cs"
| "declared_names (c # cs) = declared_names cs"

text \<open>
  The state that is open after a builder call, and the rules that a chain of calls declares
  for the state \<open>nm\<close>, in the order of the \<^verbatim>\<open>on()\<close> calls: an \<^verbatim>\<open>on()\<close> call declares
  a rule for the state that the latest \<^verbatim>\<open>state()\<close> call before it has named.
\<close>

fun cur_after :: "string option \<Rightarrow> builder_call \<Rightarrow> string option" where
  "cur_after cur (DeclState n) = Some n"
| "cur_after cur c = cur"

fun rules_declared :: "string \<Rightarrow> string option \<Rightarrow> builder_call list \<Rightarrow> rule list" where
  "rules_declared nm cur [] = []"
| "rules_declared nm cur (DeclState n # cs) = rules_declared nm (Some n) cs"
| "rules_declared nm cur (On mt acts # cs) =
     (if cur = Some nm then [\<lparr>matcher = mt, actions = acts\<rparr>] else []) @ rules_declared nm cur cs"
| "rules_declared nm cur (OnEnd acts # cs) = rules_declared nm cur cs"
| "rules_declared nm cur (Else acts # cs) = rules_declared nm cur cs"

text \<open>
  Executing an action list: every action is applied, in list order, to the context that the
  action before it has left, until one throws.
\<close>

definition in_order :: "action list \<Rightarrow> Context \<Rightarrow> exn option \<times> Context" where
  "in_order acts c =
     fold (\<lambda>a (e, c). case e of
                         Some x \<Rightarrow> (Some x, c)
                       | None \<Rightarrow> (case do_action a c of
                                    Inl x \<Rightarrow> (Some x, c)
                                  | Inr c' \<Rightarrow> (None, c')))
          acts (None, c)"

text \<open>
  The rule list that a machine built now would scan in the state \<open>nm\<close>, and the invariant
  of the builder's table: different names refer to different state objects, every state
  object is allocated, and the current state is the object of the name declared last.
\<close>

definition rules_in :: "heap \<times> StateMachineBuilder \<Rightarrow> string \<Rightarrow> rule list" where
  "rules_in hb nm =
     (case states (machine_in (fst hb) (build (snd hb))) nm of
        None \<Rightarrow> []
      | Some sto \<Rightarrow> matchers sto)"

definition builder_inv :: "heap \<times> StateMachineBuilder \<Rightarrow> string option \<Rightarrow> bool" where
  "builder_inv hb cur =
     ((\<forall>n n' a. tables (fst hb) (b_states (snd hb)) n = Some a
                 \<and> tables (fst hb) (b_states (snd hb)) n' = Some a \<longrightarrow> n = n')
      \<and> (\<forall>n a. tables (fst hb) (b_states (snd hb)) n = Some a \<longrightarrow> a < next_addr (fst hb))
      \<and> (case cur of
            None \<Rightarrow> currentState (snd hb) = None
          | Some n \<Rightarrow> currentState (snd hb) \<noteq> None
                       \<and> tables (fst hb) (b_states (snd hb)) n = currentState (snd hb)))"

section \<open>The example tokenizers of the Readme\<close>

definition color_calls :: "builder_call list" where
  "color_calls =
     [ DeclState ''text'',
         On (Lit ''['') [Emit ''text'', State ''color''],
         OnEnd [Emit ''text''],
         Else [Accept],
       DeclState ''color'',
         On (Lit '']'') [Emit ''color'', State ''text''],
         Else [Accept] ]"

definition color_calls_checked :: "builder_call list" where
  "color_calls_checked =
     [ DeclState ''text'',
         On (Lit ''['') [Emit ''text'', State ''color''],
         OnEnd [Emit ''text''],
         Else [Accept],
       DeclState ''color'',
         On (Lit '']'') [Emit ''color'', State ''text''],
         OnEnd [Error ''Unclosed color tag''],
         Else [Accept] ]"

section \<open>Inputs used in the examples below\<close>

text \<open>
  A machine whose only rule requests a transition and then calls a sub-state, in this order:
  \<^verbatim>\<open>.state('text').on('&', state('color'), call('entity')).onEnd(emit('text')).else(accept())\<close>.
\<close>

definition call_after_transition :: StateMachine where
  "call_after_transition =
     \<lparr> defaultState = Some ''text'',
       states =
         [''text'' \<mapsto>
            \<lparr> name = ''text'',
              matchers = [\<lparr>matcher = Lit ''&'', actions = [State ''color'', Call ''entity'']\<rparr>],
              defaultActions = [Accept],
              endActions = [Emit ''text''] \<rparr>] \<rparr>"

text \<open>\<^verbatim>\<open>.state('s').onEnd(emit('a'), emit('b'))\<close>: an end rule that queues two tokens.\<close>

definition two_end_tokens_calls :: "builder_call list" where
  "two_end_tokens_calls = [DeclState ''s'', OnEnd [Emit ''a'', Emit ''b'']]"

text \<open>\<^verbatim>\<open>.state('').state('a')\<close>: the first declared name is the empty string.\<close>

definition empty_name_first_calls :: "builder_call list" where
  "empty_name_first_calls = [DeclState [], DeclState ''a'']"

text \<open>
  A state whose second and third rule both match the item \<^verbatim>\<open>a\<close>:
  \<^verbatim>\<open>.state('s').on('b', push()).on('a', accept()).on('a', emit('x'))\<close>.
\<close>

definition two_matching_calls :: "builder_call list" where
  "two_matching_calls =
     [ DeclState ''s'',
         On (Lit ''b'') [Push],
         On (Lit ''a'') [Accept],
         On (Lit ''a'') [Emit ''x''] ]"

text \<open>A context in which the item \<^verbatim>\<open>a\<close> has just been pulled, with a given value stack.\<close>

definition item_a_context :: "char option list option \<Rightarrow> Context" where
  "item_a_context st = (new_Context (Some ''s''))\<lparr>currentItem := Some CHR ''a'', charstack := st\<rparr>"

section \<open>Facts about the output stream\<close>

lemma next_finished: "finished (ctx r) \<Longrightarrow> next m r = (Undefined, r)"
  by (simp add: next_def)

lemma pulls_finished: "finished (ctx r) \<Longrightarrow> pulls m n r = (replicate n Undefined, r)"
  by (induction n) (simp_all add: next_finished)

lemma pulls_add:
  "pulls m (a + b) r =
     (fst (pulls m a r) @ fst (pulls m b (snd (pulls m a r))),
      snd (pulls m b (snd (pulls m a r))))"
  by (induction a arbitrary: r) (simp_all split: prod.splits)

lemma pulls_Suc_fst: "fst (pulls m (Suc n) r) = fst (next m r) # fst (pulls m n (snd (next m r)))"
  by (simp split: prod.splits)

section \<open>Scenario A: the colour-tag tokenizer on \<^verbatim>\<open>a[b]c\<close>\<close>

lemma color_run:
  "case Tokenizer color_calls of
     Inl e \<Rightarrow> False
   | Inr m \<Rightarrow>
       fst (pulls m 4 (process m ''a[b]c'')) =
         [Tok \<lparr>tok_type = ''text'', tok_value = ''a''\<rparr>,
          Tok \<lparr>tok_type = ''color'', tok_value = ''b''\<rparr>,
          Tok \<lparr>tok_type = ''text'', tok_value = ''c''\<rparr>, Undefined]
       \<and> finished (ctx (snd (pulls m 4 (process m ''a[b]c''))))"
  by code_simp

text \<open>
  Claim C6. The tokenizer with the states \<^verbatim>\<open>text\<close> and \<^verbatim>\<open>color\<close> builds without an
  error, and on the input \<^verbatim>\<open>a[b]c\<close> the calls of \<^verbatim>\<open>next()\<close> return the tokens
  \<^verbatim>\<open>{text,"a"}\<close>, \<^verbatim>\<open>{color,"b"}\<close>, \<^verbatim>\<open>{text,"c"}\<close> in this order and
  \<^verbatim>\<open>undefined\<close> on the fourth call and on every call after it.
\<close>

theorem scenario_A_tokens:
  "\<exists>m. Tokenizer color_calls = Inr m \<and>
     (\<forall>n. fst (pulls m (4 + n) (process m ''a[b]c'')) =
        [Tok \<lparr>tok_type = ''text'', tok_value = ''a''\<rparr>,
         Tok \<lparr>tok_type = ''color'', tok_value = ''b''\<rparr>,
         Tok \<lparr>tok_type = ''text'', tok_value = ''c''\<rparr>] @ replicate (Suc n) Undefined)"
proof (cases "Tokenizer color_calls")
  case (Inl e)
  with color_run show ?thesis by simp
next
  case (Inr m)
  let ?r = "snd (pulls m 4 (process m ''a[b]c''))"
  from color_run Inr have
    out: "fst (pulls m 4 (process m ''a[b]c'')) =
         [Tok \<lparr>tok_type = ''text'', tok_value = ''a''\<rparr>,
          Tok \<lparr>tok_type = ''color'', tok_value = ''b''\<rparr>,
          Tok \<lparr>tok_type = ''text'', tok_value = ''c''\<rparr>, Undefined]"
    and fin: "finished (ctx ?r)"
    by simp_all
  have "fst (pulls m (4 + n) (process m ''a[b]c'')) =
        fst (pulls m 4 (process m ''a[b]c'')) @ replicate n Undefined" for n
    using pulls_finished [OF fin, of m n] by (simp only: pulls_add fst_conv)
  with out Inr show ?thesis by (simp add: replicate_append_same del: pulls.simps)
qed

section \<open>Scenario C: the unclosed colour tag\<close>

lemma end_rule_throws:
  assumes st: "states m (name_str (state (ctx r))) = Some sto"
    and ea: "endActions sto = [Error msg]"
    and nf: "\<not> finished (ctx r)" and nt: "tokens (ctx r) = []"
    and ex: "length (iterable (inputStream r)) \<le> inputPosition (inputStream r)"
  shows "next m r =
           (Throws (ErrorExn (error_text msg (currentPosition (ctx r) + 1) None)),
            r\<lparr>ctx := (ctx r)\<lparr>currentItem := None, currentPosition := currentPosition (ctx r) + 1\<rparr>\<rparr>)"
proof -
  have "iteration m r =
          (Some (Throws (ErrorExn (error_text msg (currentPosition (ctx r) + 1) None))),
            r\<lparr>ctx := (ctx r)\<lparr>currentItem := None, currentPosition := currentPosition (ctx r) + 1\<rparr>\<rparr>)"
    using st ea ex
    by (cases r) (simp add: iteration_def stream_next_def Let_def error_message_def)
  then show ?thesis
    using nf nt by (simp add: next_def loop.simps [of m r])
qed

lemma end_rule_throws_forever:
  assumes st: "states m (name_str (state (ctx r))) = Some sto"
    and ea: "endActions sto = [Error msg]"
    and nf: "\<not> finished (ctx r)" and nt: "tokens (ctx r) = []"
    and ex: "length (iterable (inputStream r)) \<le> inputPosition (inputStream r)"
    and pos: "currentPosition (ctx r) = int p"
  shows "fst (pulls m n r) =
           map (\<lambda>k. Throws (ErrorExn (error_text msg (int k) None))) [Suc p..<Suc p + n]"
  using st nf nt ex pos
proof (induction n arbitrary: r p)
  case 0
  then show ?case by simp
next
  case (Suc n)
  let ?r' = "r\<lparr>ctx := (ctx r)\<lparr>currentItem := None, currentPosition := currentPosition (ctx r) + 1\<rparr>\<rparr>"
  have nx: "next m r = (Throws (ErrorExn (error_text msg (int (Suc p)) None)), ?r')"
    using end_rule_throws [OF Suc.prems(1) ea Suc.prems(2,3,4)] Suc.prems(5)
    by (simp add: add.commute)
  have "fst (pulls m n ?r') =
          map (\<lambda>k. Throws (ErrorExn (error_text msg (int k) None))) [Suc (Suc p)..<Suc (Suc p) + n]"
    using Suc.prems by (intro Suc.IH) simp_all
  moreover have "[Suc p..<Suc p + Suc n] = Suc p # [Suc (Suc p)..<Suc (Suc p) + n]"
    by (simp add: upt_conv_Cons)
  ultimately show ?case
    using nx by (simp add: pulls_Suc_fst del: upt_Suc pulls.simps)
qed

lemma checked_run:
  "case Tokenizer color_calls_checked of
     Inl e \<Rightarrow> False
   | Inr m \<Rightarrow>
       fst (pulls m 2 (process m ''a[b'')) =
         [Tok \<lparr>tok_type = ''text'', tok_value = ''a''\<rparr>,
          Throws (ErrorExn (''Unclosed color tag at position 3 ('' @ [CHR 0x27] @ ''undefined''
                              @ [CHR 0x27] @ '')''))]
       \<and> (case states m ''color'' of None \<Rightarrow> False
           | Some sto \<Rightarrow> endActions sto = [Error ''Unclosed color tag''])
       \<and> state (ctx (snd (pulls m 2 (process m ''a[b'')))) = Some ''color''
       \<and> currentItem (ctx (snd (pulls m 2 (process m ''a[b'')))) = None
       \<and> currentPosition (ctx (snd (pulls m 2 (process m ''a[b'')))) = 3
       \<and> \<not> finished (ctx (snd (pulls m 2 (process m ''a[b''))))
       \<and> tokens (ctx (snd (pulls m 2 (process m ''a[b'')))) = []
       \<and> length (iterable (inputStream (snd (pulls m 2 (process m ''a[b'')))))
            \<le> inputPosition (inputStream (snd (pulls m 2 (process m ''a[b''))))"
  by code_simp

text \<open>
  Claim C5. The tokenizer of scenario A with the end rule
  \<^verbatim>\<open>error("Unclosed color tag")\<close> on the state \<^verbatim>\<open>color\<close>, on the input \<^verbatim>\<open>a[b\<close>:
  the first call of \<^verbatim>\<open>next()\<close> returns the token \<^verbatim>\<open>{text,"a"}\<close> and the second one
  throws an error whose message is the supplied message followed by the position 3 and the
  item \<^verbatim>\<open>undefined\<close>, the end-of-input value; the context holds that position and that
  item when the error is thrown. The run does not recover: every later call of \<^verbatim>\<open>next()\<close>
  throws the same message again, with the next position.
\<close>

theorem scenario_C_abort:
  "\<exists>m. Tokenizer color_calls_checked = Inr m \<and>
     fst (pulls m 2 (process m ''a[b'')) =
       [Tok \<lparr>tok_type = ''text'', tok_value = ''a''\<rparr>,
        Throws (ErrorExn (''Unclosed color tag at position 3 ('' @ [CHR 0x27] @ ''undefined''
                            @ [CHR 0x27] @ '')''))] \<and>
     error_text ''Unclosed color tag'' 3 None =
       ''Unclosed color tag at position 3 ('' @ [CHR 0x27] @ ''undefined'' @ [CHR 0x27] @ '')'' \<and>
     currentPosition (ctx (snd (pulls m 2 (process m ''a[b'')))) = 3 \<and>
     currentItem (ctx (snd (pulls m 2 (process m ''a[b'')))) = None \<and>
     (\<forall>n. fst (pulls m (2 + n) (process m ''a[b'')) =
            fst (pulls m 2 (process m ''a[b''))
              @ map (\<lambda>k. Throws (ErrorExn (error_text ''Unclosed color tag'' (int k) None)))
                  [4..<4 + n])"
proof (cases "Tokenizer color_calls_checked")
  case (Inl e)
  with checked_run show ?thesis by simp
next
  case (Inr m)
  let ?r = "snd (pulls m 2 (process m ''a[b''))"
  from checked_run Inr obtain sto where
    out: "fst (pulls m 2 (process m ''a[b'')) =
         [Tok \<lparr>tok_type = ''text'', tok_value = ''a''\<rparr>,
          Throws (ErrorExn (''Unclosed color tag at position 3 ('' @ [CHR 0x27] @ ''undefined''
                              @ [CHR 0x27] @ '')''))]"
    and st: "states m ''color'' = Some sto" and ea: "endActions sto = [Error ''Unclosed color tag'']"
    and s: "state (ctx ?r) = Some ''color''" and ci: "currentItem (ctx ?r) = None"
    and pos: "currentPosition (ctx ?r) = 3"
    and nf: "\<not> finished (ctx ?r)" and nt: "tokens (ctx ?r) = []"
    and ex: "length (iterable (inputStream ?r)) \<le> inputPosition (inputStream ?r)"
    by (auto split: option.splits)
  have st': "states m (name_str (state (ctx ?r))) = Some sto"
    using s st by (simp add: name_str_def)
  have pos': "currentPosition (ctx ?r) = int 3" using pos by simp
  have later: "fst (pulls m n ?r) =
      map (\<lambda>k. Throws (ErrorExn (error_text ''Unclosed color tag'' (int k) None))) [4..<4 + n]" for n
    using end_rule_throws_forever [OF st' ea nf nt ex pos', of n]
    by (simp add: eval_nat_numeral)
  have three: "error_text ''Unclosed color tag'' 3 None =
       ''Unclosed color tag at position 3 ('' @ [CHR 0x27] @ ''undefined'' @ [CHR 0x27] @ '')''"
    by code_simp
  have split: "fst (pulls m (2 + n) (process m ''a[b'')) =
                 fst (pulls m 2 (process m ''a[b'')) @ fst (pulls m n ?r)" for n
    by (simp only: pulls_add fst_conv)
  show ?thesis
    using Inr out ci pos later three split by (simp del: pulls.simps)
qed

section \<open>Matchers and the choice of the rule\<close>

lemma eval_matcher_false_same: "eval_matcher mt c = Inr (False, c') \<Longrightarrow> c' = c"
  by (cases mt) (auto simp: pop_def split: option.splits if_splits)

lemma find_matcher_first:
  assumes "i < length rs"
    and "\<forall>j<i. \<exists>c'. eval_matcher (matcher (rs ! j)) c = Inr (False, c')"
    and "eval_matcher (matcher (rs ! i)) c = Inr (True, c1)"
  shows "find_matcher rs c = Inr (Some (rs ! i), c1)"
  using assms
proof (induction rs arbitrary: i)
  case Nil
  then show ?case by simp
next
  case (Cons r rs)
  show ?case
  proof (cases i)
    case 0
    with Cons.prems show ?thesis by simp
  next
    case (Suc k)
    from Cons.prems(2) Suc obtain c' where h: "eval_matcher (matcher r) c = Inr (False, c')"
      by fastforce
    then have same: "c' = c" by (rule eval_matcher_false_same)
    have "find_matcher rs c = Inr (Some (rs ! k), c1)"
    proof (rule Cons.IH)
      show "k < length rs" using Cons.prems(1) Suc by simp
      show "\<forall>j<k. \<exists>c'. eval_matcher (matcher (rs ! j)) c = Inr (False, c')"
        using Cons.prems(2) Suc by fastforce
      show "eval_matcher (matcher (rs ! k)) c = Inr (True, c1)"
        using Cons.prems(3) Suc by simp
    qed
    with h same Suc show ?thesis by simp
  qed
qed

lemma run_actions_thrown:
  "fold (\<lambda>a (e, c). case e of
                         Some x \<Rightarrow> (Some x, c)
                       | None \<Rightarrow> (case do_action a c of
                                    Inl x \<Rightarrow> (Some x, c)
                                  | Inr c' \<Rightarrow> (None, c')))
          acts (Some x, c) = (Some x, c)"
  by (induction acts) simp_all

lemma run_actions_in_order: "run_actions acts c = in_order acts c"
  unfolding in_order_def
  by (induction acts arbitrary: c) (simp_all add: run_actions_thrown split: sum.splits)

lemma builder_inv_new: "builder_inv (new_StateMachineBuilder h0) None"
  by (simp add: builder_inv_def new_StateMachineBuilder_def)

lemma rules_in_new: "rules_in (new_StateMachineBuilder h0) nm = []"
  by (simp add: rules_in_def machine_in_def build_def new_StateMachineBuilder_def)

lemma state_step:
  assumes "builder_inv hb cur"
  shows "builder_inv (builder_state n hb) (Some n)"
    and "rules_in (builder_state n hb) nm = rules_in hb nm"
proof -
  obtain h b where hb: "hb = (h, b)" by (cases hb)
  show "builder_inv (builder_state n hb) (Some n)"
    using assms unfolding hb builder_inv_def builder_state_def
    by (auto split: option.splits simp: less_Suc_eq)
  show "rules_in (builder_state n hb) nm = rules_in hb nm"
    using assms unfolding hb builder_inv_def builder_state_def rules_in_def machine_in_def build_def
    by (auto split: option.splits simp: new_state_def)
qed


lemma update_step:
  assumes inv: "builder_inv hb cur"
    and ok: "update_current prop f hb = Inr hb'"
  shows "builder_inv hb' cur"
    and "rules_in hb' nm =
           (if cur = Some nm then matchers (f (the (states (machine_in (fst hb) (build (snd hb))) nm)))
            else rules_in hb nm)"
proof -
  obtain h b where hb: "hb = (h, b)" by (cases hb)
  show "builder_inv hb' cur"
    using inv ok unfolding hb builder_inv_def update_current_def
    by (auto split: option.splits)
  show "rules_in hb' nm =
           (if cur = Some nm then matchers (f (the (states (machine_in (fst hb) (build (snd hb))) nm)))
            else rules_in hb nm)"
    using inv ok unfolding hb builder_inv_def update_current_def rules_in_def machine_in_def build_def
    by (auto split: option.splits)
qed

lemma apply_call_step:
  assumes inv: "builder_inv hb cur"
    and ok: "apply_call c hb = Inr hb'"
  shows "builder_inv hb' (cur_after cur c)
       \<and> rules_in hb' nm = rules_in hb nm @ rules_declared nm cur [c]"
proof (cases c)
  case (DeclState n)
  with ok have "hb' = builder_state n hb" by simp
  with state_step(1) [OF inv, of n] state_step(2) [OF inv, of n nm] DeclState show ?thesis by simp
next
  case (On mt acts)
  with ok have u: "update_current ''matchers''
          (\<lambda>so. so\<lparr>matchers := matchers so @ [\<lparr>matcher = mt, actions = acts\<rparr>]\<rparr>) hb = Inr hb'"
    by (simp add: builder_on_def)
  have "cur = Some nm \<Longrightarrow> states (machine_in (fst hb) (build (snd hb))) nm \<noteq> None"
    using inv by (auto simp: builder_inv_def machine_in_def build_def split: option.splits)
  with update_step(1) [OF inv u] update_step(2) [OF inv u, of nm] On show ?thesis
    by (auto simp: rules_in_def split: option.splits)
next
  case (OnEnd acts)
  with ok have u: "update_current ''endActions'' (\<lambda>so. so\<lparr>endActions := acts\<rparr>) hb = Inr hb'"
    by (simp add: builder_onEnd_def)
  have "cur = Some nm \<Longrightarrow> states (machine_in (fst hb) (build (snd hb))) nm \<noteq> None"
    using inv by (auto simp: builder_inv_def machine_in_def build_def split: option.splits)
  with update_step(1) [OF inv u] update_step(2) [OF inv u, of nm] OnEnd show ?thesis
    by (auto simp: rules_in_def split: option.splits)
next
  case (Else acts)
  with ok have u: "update_current ''defaultActions'' (\<lambda>so. so\<lparr>defaultActions := acts\<rparr>) hb = Inr hb'"
    by (simp add: builder_else_def)
  have "cur = Some nm \<Longrightarrow> states (machine_in (fst hb) (build (snd hb))) nm \<noteq> None"
    using inv by (auto simp: builder_inv_def machine_in_def build_def split: option.splits)
  with update_step(1) [OF inv u] update_step(2) [OF inv u, of nm] Else show ?thesis
    by (auto simp: rules_in_def split: option.splits)
qed

lemma rules_declared_Cons:
  "rules_declared nm cur (c # cs) = rules_declared nm cur [c] @ rules_declared nm (cur_after cur c) cs"
  by (cases c) simp_all

lemma apply_calls_rules:
  assumes "builder_inv hb cur" and "apply_calls cs hb = Inr hb'"
  shows "rules_in hb' nm = rules_in hb nm @ rules_declared nm cur cs"
  using assms
proof (induction cs arbitrary: hb cur)
  case Nil
  then show ?case by simp
next
  case (Cons c cs)
  from Cons.prems(2) obtain hb1 where 1: "apply_call c hb = Inr hb1"
    and 2: "apply_calls cs hb1 = Inr hb'"
    by (auto split: sum.splits)
  from apply_call_step [OF Cons.prems(1) 1, of nm]
  have inv1: "builder_inv hb1 (cur_after cur c)"
    and r1: "rules_in hb1 nm = rules_in hb nm @ rules_declared nm cur [c]"
    by simp_all
  from Cons.IH [OF inv1 2] r1 show ?case
    by (simp only: rules_declared_Cons [of nm cur c cs] append_assoc)
qed

lemma Tokenizer_rules:
  assumes "Tokenizer calls = Inr m"
  shows "(case states m nm of None \<Rightarrow> [] | Some sto \<Rightarrow> matchers sto) = rules_declared nm None calls"
proof -
  from assms obtain hb where a: "apply_calls calls (new_StateMachineBuilder empty_heap) = Inr hb"
    and m: "m = machine_in (fst hb) (build (snd hb))"
    by (auto simp: Tokenizer_def split: sum.splits prod.splits)
  from apply_calls_rules [OF builder_inv_new a, of nm] rules_in_new [of empty_heap nm] m
  show ?thesis by (simp add: rules_in_def)
qed

lemma two_matching_built:
  "case Tokenizer two_matching_calls of
     Inl e \<Rightarrow> False
   | Inr m \<Rightarrow> defaultState m = Some ''s''"
  by code_simp

text \<open>
  Claim C4. Let a chain of builder calls build a machine, and let the rules of the state
  \<open>nm\<close> be those that the \<^verbatim>\<open>on()\<close> calls have declared for it, in the order of the
  calls. In a pass of the run loop that pulls an item \<open>x\<close> while \<open>nm\<close> is the active
  state, let rule \<open>i\<close> be the earliest-declared rule whose matcher returns true on the
  context (every rule declared before it returns false). Then the pass executes the actions
  of rule \<open>i\<close>, one after the other, and no other action: its result is fixed by that
  action list, whichever rules are declared after rule \<open>i\<close> and whether or not they match
  as well. The declared state names are names that the table does not inherit.
\<close>

theorem first_match_wins:
  assumes built: "Tokenizer calls = Inr m"
    and names: "set (declared_names calls) \<inter> set inherited_names = {}"
    and active: "state (ctx r) = Some nm"
    and pulled: "stream_next (inputStream r) = (Some x, s')"
    and i: "i < length (rules_declared nm None calls)"
    and before: "\<forall>j<i. \<exists>c'.
        eval_matcher (matcher (rules_declared nm None calls ! j))
          ((ctx r)\<lparr>currentItem := Some x, currentPosition := currentPosition (ctx r) + 1\<rparr>)
          = Inr (False, c')"
    and first: "eval_matcher (matcher (rules_declared nm None calls ! i))
          ((ctx r)\<lparr>currentItem := Some x, currentPosition := currentPosition (ctx r) + 1\<rparr>)
          = Inr (True, c2)"
  shows "iteration m r =
           (case in_order (actions (rules_declared nm None calls ! i)) c2 of
              (Some e, c3) \<Rightarrow> (Some (Throws e), \<lparr>ctx = c3, inputStream = s'\<rparr>)
            | (None, c3) \<Rightarrow>
                if tokens c3 = [] then (None, \<lparr>ctx = c3, inputStream = s'\<rparr>)
                else (case shift_tokens \<lparr>ctx = c3, inputStream = s'\<rparr> of
                        (res, r') \<Rightarrow> (Some res, r')))"
proof -
  let ?rs = "rules_declared nm None calls"
  let ?c1 = "(ctx r)\<lparr>currentItem := Some x, currentPosition := currentPosition (ctx r) + 1\<rparr>"
  from Tokenizer_rules [OF built, of nm] i obtain sto where
    sto: "states m nm = Some sto" and rs: "matchers sto = ?rs"
    by (auto split: option.splits)
  have "find_matcher (matchers sto) ?c1 = Inr (Some (?rs ! i), c2)"
    unfolding rs using i before first by (rule find_matcher_first)
  then have "choose_actions sto ?c1 = Inr (actions (?rs ! i), c2)"
    by (simp add: choose_actions_def)
  with sto active pulled show ?thesis
    by (simp add: iteration_def Let_def name_str_def run_actions_in_order)
qed

theorem first_match_wins_witness:
  "\<exists>m. Tokenizer two_matching_calls = Inr m
     \<and> set (declared_names two_matching_calls) \<inter> set inherited_names = {}
     \<and> rules_declared ''s'' None two_matching_calls =
          [\<lparr>matcher = Lit ''b'', actions = [Push]\<rparr>,
           \<lparr>matcher = Lit ''a'', actions = [Accept]\<rparr>,
           \<lparr>matcher = Lit ''a'', actions = [Emit ''x'']\<rparr>]
     \<and> iteration m (process m ''a'') =
          (None, \<lparr>ctx = (new_Context (Some ''s''))
                          \<lparr>currentItem := Some CHR ''a'', currentPosition := 0, buffer := ''a''\<rparr>,
                   inputStream = \<lparr>iterable = ''a'', inputPosition = 1\<rparr>\<rparr>)"
proof (cases "Tokenizer two_matching_calls")
  case (Inl e)
  with two_matching_built show ?thesis by simp
next
  case (Inr m)
  with two_matching_built have d: "defaultState m = Some ''s''" by simp
  let ?r = "process m ''a''"
  let ?c1 = "(ctx ?r)\<lparr>currentItem := Some CHR ''a'', currentPosition := currentPosition (ctx ?r) + 1\<rparr>"
  have names: "set (declared_names two_matching_calls) \<inter> set inherited_names = {}"
    by (simp add: two_matching_calls_def inherited_names_def)
  have rs: "rules_declared ''s'' None two_matching_calls =
          [\<lparr>matcher = Lit ''b'', actions = [Push]\<rparr>,
           \<lparr>matcher = Lit ''a'', actions = [Accept]\<rparr>,
           \<lparr>matcher = Lit ''a'', actions = [Emit ''x'']\<rparr>]"
    by (simp add: two_matching_calls_def)
  have active: "state (ctx ?r) = Some ''s''"
    using d by (simp add: process_def new_Context_def)
  have pulled: "stream_next (inputStream ?r) = (Some CHR ''a'', \<lparr>iterable = ''a'', inputPosition = 1\<rparr>)"
    by (simp add: process_def streamify_def stream_next_def)
  have i: "1 < length (rules_declared ''s'' None two_matching_calls)"
    by (simp add: rs)
  have before: "\<forall>j<1. \<exists>c'.
        eval_matcher (matcher (rules_declared ''s'' None two_matching_calls ! j)) ?c1 = Inr (False, c')"
    by (simp add: rs)
  have first: "eval_matcher (matcher (rules_declared ''s'' None two_matching_calls ! 1)) ?c1
                 = Inr (True, ?c1)"
    by (simp add: rs)
  from first_match_wins [OF Inr names active pulled i before first]
  have "iteration m ?r =
          (None, \<lparr>ctx = (new_Context (Some ''s''))
                          \<lparr>currentItem := Some CHR ''a'', currentPosition := 0, buffer := ''a''\<rparr>,
                   inputStream = \<lparr>iterable = ''a'', inputPosition = 1\<rparr>\<rparr>)"
    using d
    by (simp add: rs in_order_def accept_def item_str_def process_def new_Context_def)
  with Inr names rs show ?thesis by simp
qed

section \<open>The value stack: \<^verbatim>\<open>push()\<close> and \<^verbatim>\<open>pop()\<close>\<close>

text \<open>
  Claim C7. The run loop calls matchers only after it has stored an input item in
  \<^verbatim>\<open>currentItem\<close> and found that it is not \<^verbatim>\<open>undefined\<close>; let \<open>x\<close> be that item.
  Then \<^verbatim>\<open>pop()\<close> returns true exactly when the value stack exists, is not empty and has
  \<open>x\<close> as its last entry, the entry that the most recent \<^verbatim>\<open>push()\<close> not yet popped
  has appended. When it returns true it has removed that one entry and written nothing
  else; when it returns false the context is as before. A \<^verbatim>\<open>pop()\<close> right after a
  \<^verbatim>\<open>push()\<close> on the same item returns true and leaves the stack that \<^verbatim>\<open>push()\<close> found.
\<close>

theorem pop_matches_top:
  assumes "currentItem c = Some x"
  shows "(fst (pop c) \<longleftrightarrow> (\<exists>st. charstack c = Some st \<and> st \<noteq> [] \<and> last st = Some x))
       \<and> (\<forall>st. charstack c = Some st \<and> fst (pop c) \<longrightarrow>
              st = butlast st @ [Some x] \<and> snd (pop c) = c\<lparr>charstack := Some (butlast st)\<rparr>)
       \<and> (\<not> fst (pop c) \<longrightarrow> snd (pop c) = c)
       \<and> pop (push c) =
           (True, c\<lparr>charstack := Some (case charstack c of None \<Rightarrow> [] | Some st \<Rightarrow> st)\<rparr>)"
proof (intro conjI)
  show "fst (pop c) \<longleftrightarrow> (\<exists>st. charstack c = Some st \<and> st \<noteq> [] \<and> last st = Some x)"
    using assms by (auto simp: pop_def stack_top_def split: option.splits)
  show "\<forall>st. charstack c = Some st \<and> fst (pop c) \<longrightarrow>
              st = butlast st @ [Some x] \<and> snd (pop c) = c\<lparr>charstack := Some (butlast st)\<rparr>"
    using assms
    by (auto simp: pop_def stack_top_def split: option.splits if_splits)
  show "\<not> fst (pop c) \<longrightarrow> snd (pop c) = c"
    by (auto simp: pop_def split: option.splits if_splits)
  show "pop (push c) =
          (True, c\<lparr>charstack := Some (case charstack c of None \<Rightarrow> [] | Some st \<Rightarrow> st)\<rparr>)"
    by (simp add: pop_def push_def stack_top_def)
qed

theorem pop_matches_top_witness:
  "currentItem (item_a_context (Some [Some CHR ''b'', Some CHR ''a''])) = Some CHR ''a''
   \<and> fst (pop (item_a_context (Some [Some CHR ''b'', Some CHR ''a''])))
   \<and> snd (pop (item_a_context (Some [Some CHR ''b'', Some CHR ''a''])))
       = item_a_context (Some [Some CHR ''b''])
   \<and> \<not> fst (pop (item_a_context (Some [Some CHR ''a'', Some CHR ''b''])))
   \<and> snd (pop (item_a_context (Some [Some CHR ''a'', Some CHR ''b''])))
       = item_a_context (Some [Some CHR ''a'', Some CHR ''b''])"
proof -
  have h: "currentItem (item_a_context st) = Some CHR ''a''" for st
    by (simp add: item_a_context_def)
  have cs: "charstack (item_a_context st) = st" for st
    by (simp add: item_a_context_def)
  have upd: "(item_a_context st)\<lparr>charstack := st'\<rparr> = item_a_context st'" for st st'
    by (simp add: item_a_context_def)
  from pop_matches_top [OF h, of "Some [Some CHR ''b'', Some CHR ''a'']"]
  have 1: "fst (pop (item_a_context (Some [Some CHR ''b'', Some CHR ''a''])))"
    and 2: "snd (pop (item_a_context (Some [Some CHR ''b'', Some CHR ''a''])))
              = item_a_context (Some [Some CHR ''b''])"
    by (simp_all add: cs upd)
  from pop_matches_top [OF h, of "Some [Some CHR ''a'', Some CHR ''b'']"]
  have 3: "\<not> fst (pop (item_a_context (Some [Some CHR ''a'', Some CHR ''b''])))"
    and 4: "snd (pop (item_a_context (Some [Some CHR ''a'', Some CHR ''b''])))
              = item_a_context (Some [Some CHR ''a'', Some CHR ''b''])"
    by (simp_all add: cs)
  from h 1 2 3 4 show ?thesis by simp
qed

lemma find_matcher_no_pop:
  assumes "currentItem c = Some x" and "charstack c = None \<or> charstack c = Some []"
    and "find_matcher rs c = Inr (Some rl, c')"
  shows "matcher rl \<noteq> Pop"
  using assms(3)
proof (induction rs)
  case Nil
  then show ?case by simp
next
  case (Cons r rs)
  show ?case
  proof (cases "eval_matcher (matcher r) c")
    case (Inl e)
    with Cons.prems show ?thesis by simp
  next
    case (Inr p)
    obtain b c1 where p: "p = (b, c1)" by (cases p)
    show ?thesis
    proof (cases b)
      case True
      with Inr p Cons.prems have rl: "rl = r" by simp
      have "matcher r \<noteq> Pop"
      proof
        assume "matcher r = Pop"
        with Inr p True assms(1,2) show False
          by (auto simp: pop_def stack_top_def)
      qed
      with rl show ?thesis by simp
    next
      case False
      with Inr p have "c1 = c" using eval_matcher_false_same by simp
      with Inr p False Cons.prems have "find_matcher rs c = Inr (Some rl, c')" by simp
      then show ?thesis by (rule Cons.IH)
    qed
  qed
qed

text \<open>
  Claim C10. Let the value stack of a context be absent (no \<^verbatim>\<open>push()\<close> has run) or
  empty (every pushed item has been popped), and let \<open>x\<close> be the input item that the run
  loop has stored in \<^verbatim>\<open>currentItem\<close> before it calls the matchers. Then \<^verbatim>\<open>pop()\<close>
  returns false, throws nothing and leaves the context as it is, and whatever the rule list
  of the active state is, the rule that the scan selects is not one guarded by \<^verbatim>\<open>pop()\<close>.
\<close>

theorem pop_on_empty_stack:
  assumes "charstack c = None \<or> charstack c = Some []"
  shows "eval_matcher Pop (c\<lparr>currentItem := Some x\<rparr>) = Inr (False, c\<lparr>currentItem := Some x\<rparr>)
       \<and> (\<forall>rs rl c'. find_matcher rs (c\<lparr>currentItem := Some x\<rparr>) = Inr (Some rl, c')
              \<longrightarrow> matcher rl \<noteq> Pop)"
proof (intro conjI allI impI)
  show "eval_matcher Pop (c\<lparr>currentItem := Some x\<rparr>) = Inr (False, c\<lparr>currentItem := Some x\<rparr>)"
    using assms by (auto simp: pop_def stack_top_def)
next
  fix rs rl c'
  assume "find_matcher rs (c\<lparr>currentItem := Some x\<rparr>) = Inr (Some rl, c')"
  then show "matcher rl \<noteq> Pop"
    using assms
    by (intro find_matcher_no_pop [of "c\<lparr>currentItem := Some x\<rparr>" x rs rl c']) simp_all
qed

theorem pop_on_empty_stack_witness:
  "(charstack (new_Context (Some ''s'')) = None \<or> charstack (new_Context (Some ''s'')) = Some [])
   \<and> eval_matcher Pop (item_a_context None) = Inr (False, item_a_context None)
   \<and> eval_matcher Pop (item_a_context (Some [])) = Inr (False, item_a_context (Some []))
   \<and> find_matcher [\<lparr>matcher = Pop, actions = [Emit ''x'']\<rparr>] (item_a_context (Some []))
       = Inr (None, item_a_context (Some []))"
proof -
  have a: "charstack (new_Context (Some ''s'')) = None \<or> charstack (new_Context (Some ''s'')) = Some []"
    by (simp add: new_Context_def)
  have b: "charstack (item_a_context (Some [])) = None \<or> charstack (item_a_context (Some [])) = Some []"
    by (simp add: item_a_context_def)
  have e1: "(new_Context (Some ''s''))\<lparr>currentItem := Some CHR ''a''\<rparr> = item_a_context None"
    by (simp add: item_a_context_def new_Context_def)
  have e2: "(item_a_context (Some []))\<lparr>currentItem := Some CHR ''a''\<rparr> = item_a_context (Some [])"
    by (simp add: item_a_context_def)
  from pop_on_empty_stack [OF a, of "CHR ''a''"]
  have 1: "eval_matcher Pop (item_a_context None) = Inr (False, item_a_context None)"
    by (simp only: e1)
  from pop_on_empty_stack [OF b, of "CHR ''a''"]
  have 2: "eval_matcher Pop (item_a_context (Some [])) = Inr (False, item_a_context (Some []))"
    by (simp only: e2)
  from 2 have 3: "find_matcher [\<lparr>matcher = Pop, actions = [Emit ''x'']\<rparr>] (item_a_context (Some []))
       = Inr (None, item_a_context (Some []))"
    by simp
  from a 1 2 3 show ?thesis by blast
qed

section \<open>The position counter\<close>

lemma do_action_position: "do_action a c = Inr c' \<Longrightarrow> currentPosition c' = currentPosition c"
  by (cases a)
     (auto simp: accept_def emit_def ctx_emit_def changeState_def push_def call_def ret_def
           split: option.splits if_splits)

lemma run_actions_position: "currentPosition (snd (run_actions as c)) = currentPosition c"
  by (induction as arbitrary: c) (auto split: sum.splits dest: do_action_position)

lemma eval_matcher_position:
  "eval_matcher mt c = Inr (b, c') \<Longrightarrow> currentPosition c' = currentPosition c"
  by (cases mt) (auto simp: pop_def split: option.splits if_splits)

lemma find_matcher_position:
  "find_matcher rs c = Inr (f, c') \<Longrightarrow> currentPosition c' = currentPosition c"
  by (induction rs arbitrary: c)
     (auto split: sum.splits prod.splits if_splits dest: eval_matcher_position)

lemma choose_actions_position:
  "choose_actions sto c = Inr (acts, c') \<Longrightarrow> currentPosition c' = currentPosition c"
  by (auto simp: choose_actions_def split: sum.splits prod.splits dest: find_matcher_position)

lemma shift_tokens_position:
  "currentPosition (ctx (snd (shift_tokens r))) = currentPosition (ctx r)"
  by (simp add: shift_tokens_def split: list.splits)

lemma iteration_position:
  "currentPosition (ctx (snd (iteration m r))) = currentPosition (ctx r) + 1"
proof -
  obtain item s' where sn: "stream_next (inputStream r) = (item, s')"
    by (cases "stream_next (inputStream r)")
  let ?c1 = "(ctx r)\<lparr>currentItem := item, currentPosition := currentPosition (ctx r) + 1\<rparr>"
  show ?thesis
  proof (cases "states m (name_str (state ?c1))")
    case None
    with sn show ?thesis by (simp add: iteration_def Let_def)
  next
    case (Some sto)
    note active = this
    show ?thesis
    proof (cases item)
      case None
      have "currentPosition (snd (run_actions (endActions sto) ?c1)) = currentPosition ?c1"
        by (rule run_actions_position)
      with sn active None show ?thesis
        by (auto simp: iteration_def Let_def shift_tokens_def
                 split: prod.splits option.splits list.splits)
    next
      case (Some ch)
      note item = this
      show ?thesis
      proof (cases "choose_actions sto ?c1")
        case (Inl e)
        with sn active item show ?thesis
          by (simp add: iteration_def Let_def)
      next
        case (Inr p)
        obtain acts c2 where p: "p = (acts, c2)" by (cases p)
        have c2: "currentPosition c2 = currentPosition ?c1"
          using choose_actions_position Inr p by blast
        have "currentPosition (snd (run_actions acts c2)) = currentPosition c2"
          by (rule run_actions_position)
        with c2 sn active item Inr p show ?thesis
          by (auto simp: iteration_def Let_def shift_tokens_def
                   split: prod.splits option.splits list.splits)
      qed
    qed
  qed
qed

lemma loop_position:
  "currentPosition (ctx (snd (loop m r))) = currentPosition (ctx r) + int (loop_pulls m r)"
proof (induction m r rule: loop.induct)
  case (1 m r)
  show ?case
  proof (cases "fst (iteration m r)")
    case None
    with 1 iteration_position [of m r] show ?thesis
      by (simp add: loop.simps [of m r] loop_pulls.simps [of m r])
  next
    case (Some res)
    with iteration_position [of m r] show ?thesis
      by (simp add: loop.simps [of m r] loop_pulls.simps [of m r])
  qed
qed

lemma iteration_stream:
  "inputStream (snd (iteration m r)) = snd (stream_next (inputStream r))"
  by (auto simp: iteration_def Let_def shift_tokens_def
           split: prod.splits option.splits sum.splits list.splits)

lemma loop_stream:
  "inputStream (snd (loop m r)) = ((\<lambda>s. snd (stream_next s)) ^^ loop_pulls m r) (inputStream r)"
proof (induction m r rule: loop.induct)
  case (1 m r)
  show ?case
  proof (cases "fst (iteration m r)")
    case None
    with 1 funpow_swap1 [of "\<lambda>s. snd (stream_next s)"
                            "loop_pulls m (snd (iteration m r))" "inputStream r"]
    show ?thesis
      by (simp add: loop.simps [of m r] loop_pulls.simps [of m r] iteration_stream)
  next
    case (Some res)
    then show ?thesis
      by (simp add: loop.simps [of m r] loop_pulls.simps [of m r] iteration_stream)
  qed
qed

lemma next_stream:
  "inputStream (snd (next m r)) = ((\<lambda>s. snd (stream_next s)) ^^ input_pulls m r) (inputStream r)"
  by (simp add: next_def input_pulls_def loop_stream shift_tokens_def split: list.splits)

text \<open>
  Claim C8. A fresh run has the position \<open>-1\<close>, so the first pulled input item gets the
  position 0. Every pass through the loop body pulls exactly one item from the input stream
  (the end-of-input value included) and leaves the position exactly one higher, whatever the
  machine is, whatever the matchers and actions do and however many tokens they queue; no
  action list writes the position. A call of \<^verbatim>\<open>next()\<close> changes the position by the
  number of input pulls it makes, which is none when it returns the end signal of a finished
  run or a queued token.
\<close>

theorem position_counts_input_pulls:
  "currentPosition (ctx (process m input)) = - 1
   \<and> currentPosition (ctx (snd (iteration m (process m input)))) = 0
   \<and> inputStream (snd (iteration m r)) = snd (stream_next (inputStream r))
   \<and> currentPosition (ctx (snd (iteration m r))) = currentPosition (ctx r) + 1
   \<and> currentPosition (snd (run_actions acts c)) = currentPosition c
   \<and> currentPosition (ctx (snd (next m r))) = currentPosition (ctx r) + int (input_pulls m r)
   \<and> inputStream (snd (next m r))
       = ((\<lambda>s. snd (stream_next s)) ^^ input_pulls m r) (inputStream r)
   \<and> input_pulls m (r\<lparr>ctx := (ctx r)\<lparr>finished := True\<rparr>\<rparr>) = 0
   \<and> input_pulls m (r\<lparr>ctx := (ctx r)\<lparr>tokens := t # ts\<rparr>\<rparr>) = 0"
proof (intro conjI)
  show "currentPosition (ctx (process m input)) = - 1"
    by (simp add: process_def new_Context_def)
  then show "currentPosition (ctx (snd (iteration m (process m input)))) = 0"
    by (simp add: iteration_position)
  show "inputStream (snd (iteration m r)) = snd (stream_next (inputStream r))"
    by (rule iteration_stream)
  show "currentPosition (ctx (snd (iteration m r))) = currentPosition (ctx r) + 1"
    by (rule iteration_position)
  show "currentPosition (snd (run_actions acts c)) = currentPosition c"
    by (rule run_actions_position)
  show "currentPosition (ctx (snd (next m r))) = currentPosition (ctx r) + int (input_pulls m r)"
    by (simp add: next_def input_pulls_def shift_tokens_position loop_position)
  show "inputStream (snd (next m r))
          = ((\<lambda>s. snd (stream_next s)) ^^ input_pulls m r) (inputStream r)"
    by (rule next_stream)
  show "input_pulls m (r\<lparr>ctx := (ctx r)\<lparr>finished := True\<rparr>\<rparr>) = 0"
    by (simp add: input_pulls_def)
  show "input_pulls m (r\<lparr>ctx := (ctx r)\<lparr>tokens := t # ts\<rparr>\<rparr>) = 0"
    by (simp add: input_pulls_def)
qed

section \<open>Transitions inside an action list\<close>

text \<open>
  Claim C1 at a rule that requests a transition and then calls a sub-state. In the state
  \<^verbatim>\<open>text\<close> the rule on \<^verbatim>\<open>&\<close> runs \<^verbatim>\<open>state('color')\<close> and then
  \<^verbatim>\<open>call('entity')\<close>. The state that was active when the rule matched is \<^verbatim>\<open>text\<close>,
  and \<^verbatim>\<open>call\<close> pushes \<^verbatim>\<open>color\<close>, the target of the transition before it:
  \<^verbatim>\<open>changeState\<close> has written the state name already, where the comment on
  \<^verbatim>\<open>state()\<close> says that the state change does not happen immediately.
\<close>

theorem call_after_transition_pushes_target:
  "state (ctx (process call_after_transition ''&'')) = Some ''text''
   \<and> callstack (ctx (snd (iteration call_after_transition (process call_after_transition ''&''))))
       = Some [Some ''color'']
   \<and> callstack (ctx (snd (iteration call_after_transition (process call_after_transition ''&''))))
       \<noteq> Some [Some ''text'']"
  by code_simp

section \<open>The end rule on an empty input\<close>

lemma two_end_tokens_run:
  "case Tokenizer two_end_tokens_calls of
     Inl e \<Rightarrow> False
   | Inr m \<Rightarrow>
       fst (pulls m 1 (process m [])) = [Tok \<lparr>tok_type = ''a'', tok_value = []\<rparr>]
       \<and> tokens (ctx (snd (pulls m 1 (process m [])))) = [\<lparr>tok_type = ''b'', tok_value = []\<rparr>]
       \<and> finished (ctx (snd (pulls m 1 (process m []))))"
  by code_simp

text \<open>
  Claim C2 at an end rule that queues two tokens, \<^verbatim>\<open>.onEnd(emit('a'), emit('b'))\<close>, on
  the empty input: the first call of \<^verbatim>\<open>next()\<close> returns the token \<^verbatim>\<open>a\<close> and marks the
  run finished while the token \<^verbatim>\<open>b\<close> is still in the queue; every later call returns
  \<^verbatim>\<open>undefined\<close>, so \<^verbatim>\<open>b\<close> is never returned.
\<close>

theorem end_rule_second_token_lost:
  "\<exists>m. Tokenizer two_end_tokens_calls = Inr m \<and>
     tokens (ctx (snd (pulls m 1 (process m [])))) = [\<lparr>tok_type = ''b'', tok_value = []\<rparr>] \<and>
     (\<forall>n. fst (pulls m (1 + n) (process m [])) =
            Tok \<lparr>tok_type = ''a'', tok_value = []\<rparr> # replicate n Undefined)"
proof (cases "Tokenizer two_end_tokens_calls")
  case (Inl e)
  with two_end_tokens_run show ?thesis by simp
next
  case (Inr m)
  let ?r = "snd (pulls m 1 (process m []))"
  from two_end_tokens_run Inr have
    out: "fst (pulls m 1 (process m [])) = [Tok \<lparr>tok_type = ''a'', tok_value = []\<rparr>]"
    and q: "tokens (ctx ?r) = [\<lparr>tok_type = ''b'', tok_value = []\<rparr>]"
    and fin: "finished (ctx ?r)"
    by simp_all
  have "fst (pulls m (1 + n) (process m [])) =
        fst (pulls m 1 (process m [])) @ replicate n Undefined" for n
    using pulls_finished [OF fin, of m n] by (simp only: pulls_add fst_conv)
  with out q Inr show ?thesis by (simp del: pulls.simps)
qed

section \<open>The builder and the machines it has built\<close>

lemma shared_table_run:
  "case apply_calls [DeclState ''s'', OnEnd [Emit ''a'']] (new_StateMachineBuilder empty_heap) of
     Inl e \<Rightarrow> False
   | Inr (h, b) \<Rightarrow>
       (case apply_calls [OnEnd [Emit ''z'']] (h, b) of
          Inl e \<Rightarrow> False
        | Inr (h', b') \<Rightarrow>
            fst (next (machine_in h (build b)) (process (machine_in h (build b)) []))
              = Tok \<lparr>tok_type = ''a'', tok_value = []\<rparr>
            \<and> fst (next (machine_in h' (build b)) (process (machine_in h' (build b)) []))
              = Tok \<lparr>tok_type = ''z'', tok_value = []\<rparr>)"
  by code_simp

text \<open>
  Claim C3 at a builder that is used again after \<^verbatim>\<open>build()\<close>. After
  \<^verbatim>\<open>.state('s').onEnd(emit('a'))\<close> the machine is built; a run of it on the empty input
  returns the token \<^verbatim>\<open>a\<close>. Then \<^verbatim>\<open>.onEnd(emit('z'))\<close> is called on the builder. A run of
  the machine built before, started after that call, returns the token \<^verbatim>\<open>z\<close>: the machine
  reads the table and the state objects that the builder keeps writing to.
\<close>

theorem built_machine_shares_builder_table:
  "\<exists>h b h' b'.
     apply_calls [DeclState ''s'', OnEnd [Emit ''a'']] (new_StateMachineBuilder empty_heap) = Inr (h, b)
     \<and> apply_calls [OnEnd [Emit ''z'']] (h, b) = Inr (h', b')
     \<and> fst (next (machine_in h (build b)) (process (machine_in h (build b)) []))
         = Tok \<lparr>tok_type = ''a'', tok_value = []\<rparr>
     \<and> fst (next (machine_in h' (build b)) (process (machine_in h' (build b)) []))
         = Tok \<lparr>tok_type = ''z'', tok_value = []\<rparr>"
  using shared_table_run
  by (auto split: sum.splits prod.splits)

lemma empty_name_first_run:
  "case apply_calls empty_name_first_calls (new_StateMachineBuilder empty_heap) of
     Inl e \<Rightarrow> False
   | Inr (h, b) \<Rightarrow> m_defaultState (build b) = Some ''a''"
  by code_simp

text \<open>
  Claim C9 at a first declared name that is the empty string: after
  \<^verbatim>\<open>.state('').state('a')\<close> the default state of the built machine is \<^verbatim>\<open>a\<close>, the second
  declared name, because the test \<^verbatim>\<open>!this.defaultState\<close> takes the empty string for a
  default state that is not set yet.
\<close>

theorem empty_first_name_is_not_initial:
  "\<exists>h b. apply_calls empty_name_first_calls (new_StateMachineBuilder empty_heap) = Inr (h, b)
     \<and> m_defaultState (build b) = Some ''a''
     \<and> m_defaultState (build b) \<noteq> Some []"
  using empty_name_first_run
  by (auto split: sum.splits prod.splits)

text \<open>
  With a first declared name that is not the empty string, the default state is that name
  after any further builder calls.
\<close>

lemma apply_call_keeps_default:
  assumes "apply_call c (h, b) = Inr (h', b')" and "\<not> falsy (b_defaultState b)"
  shows "b_defaultState b' = b_defaultState b"
  using assms
  by (cases c)
     (auto simp: builder_state_def builder_on_def builder_onEnd_def builder_else_def
                 update_current_def
           split: option.splits)

lemma apply_calls_keep_default:
  assumes "apply_calls cs hb = Inr hb'" and "\<not> falsy (b_defaultState (snd hb))"
  shows "b_defaultState (snd hb') = b_defaultState (snd hb)"
  using assms
proof (induction cs arbitrary: hb)
  case Nil
  then show ?case by simp
next
  case (Cons c cs)
  from Cons.prems(1) obtain hb1 where 1: "apply_call c hb = Inr hb1"
    and 2: "apply_calls cs hb1 = Inr hb'"
    by (auto split: sum.splits)
  from 1 Cons.prems(2) have same: "b_defaultState (snd hb1) = b_defaultState (snd hb)"
    using apply_call_keeps_default [of c "fst hb" "snd hb" "fst hb1" "snd hb1"] by simp
  with Cons.prems(2) have "\<not> falsy (b_defaultState (snd hb1))" by simp
  with 2 have "b_defaultState (snd hb') = b_defaultState (snd hb1)" by (rule Cons.IH)
  with same show ?case by simp
qed

lemma first_nonempty_name_is_default:
  assumes "apply_calls (DeclState nm # cs) (new_StateMachineBuilder h0) = Inr (h, b)"
    and "nm \<noteq> []"
  shows "m_defaultState (build b) = Some nm"
proof -
  let ?hb1 = "builder_state nm (new_StateMachineBuilder h0)"
  have d: "b_defaultState (snd ?hb1) = Some nm"
    by (simp add: builder_state_def new_StateMachineBuilder_def falsy_def split: option.splits)
  then have nf: "\<not> falsy (b_defaultState (snd ?hb1))"
    using assms(2) by (simp add: falsy_def)
  from assms(1) have "apply_calls cs ?hb1 = Inr (h, b)" by simp
  from apply_calls_keep_default [OF this nf] d show ?thesis
    by (simp add: build_def)
qed

end
